theory Spec2Isabelle
  imports Main "HOL-Library.Multiset"
begin

section \<open>The sandbox pool of \<^verbatim>\<open>bk/main_DesktopEnv_Error.py\<close>\<close>

text \<open>
  The pool manager keeps three JSON files under \<^verbatim>\<open>vm_cache\<close>: the list of available
  VM ids, the list of active VM ids and a dictionary from VM id to a lease entry.
  Every operation reads the files, changes Python lists and dictionaries, and writes
  them back while holding \<^verbatim>\<open>vm_lock\<close>. The model threads the content of the three files
  through each operation as one record and treats each locked section as one step.

  Names follow the source. An identifier of the source that starts with an underscore
  is written with the prefix \<open>u_\<close> (\<^verbatim>\<open>_release_vm\<close> is \<open>u_release_vm\<close>), since the
  module-level functions and the methods of \<^verbatim>\<open>VMStateManager\<close> share their stems.
\<close>

subsection \<open>Data\<close>

text \<open>
  A lease entry is a Python dictionary with the keys \<^verbatim>\<open>"timeout"\<close>, \<^verbatim>\<open>"lifetime"\<close> and
  \<^verbatim>\<open>"visited"\<close>, each of which may be missing; the source reads them with
  \<^verbatim>\<open>entry.get(key, default)\<close>.
\<close>

record entry =
  timeout :: "int option"
  lifetime :: "int option"
  visited :: "bool option"

definition empty_entry :: entry where
  "empty_entry = \<lparr>timeout = None, lifetime = None, visited = None\<rparr>"

text \<open>\<^verbatim>\<open>d.get(key, default)\<close> on one key of the dictionary.\<close>

definition dict_get :: "'a option \<Rightarrow> 'a \<Rightarrow> 'a" where
  "dict_get v d = (case v of None \<Rightarrow> d | Some x \<Rightarrow> x)"

record pool_state =
  available :: "int list"
  active :: "int list"
  vm_map :: "int \<rightharpoonup> entry"

text \<open>\<^verbatim>\<open>ShutdownRequest.vm_id\<close> has the type \<^verbatim>\<open>Union[int, str]\<close>.\<close>

datatype vm_ref = IntId int | StrId string

text \<open>
  The source raises bare \<^verbatim>\<open>Exception\<close> values that differ in their message;
  \<^verbatim>\<open>list.remove\<close> raises \<^verbatim>\<open>ValueError\<close>; anything the external \<^verbatim>\<open>DesktopEnv\<close> raises is
  \<open>RuntimeFailure\<close>.
\<close>

datatype error =
    NoAvailableVMs
  | VMNotAvailable int
  | ValueError
  | RuntimeFailure

text \<open>\<^verbatim>\<open>_init_state\<close>: the files as they are first written.\<close>

definition init_state :: pool_state where
  "init_state = \<lparr>available = rev [0..50], active = [], vm_map = Map.empty\<rparr>"

subsection \<open>The methods of \<^verbatim>\<open>VMStateManager\<close>\<close>

text \<open>\<^verbatim>\<open>list.remove\<close> deletes the first occurrence, which is \<^const>\<open>remove1\<close>; both methods
  call it only after the membership test, so it cannot raise there.\<close>

definition allocate_vm :: "pool_state \<Rightarrow> int \<Rightarrow> pool_state" where
  "allocate_vm s vm_id =
     (if vm_id \<in> set (available s)
      then s\<lparr>available := remove1 vm_id (available s), active := active s @ [vm_id]\<rparr>
      else s)"

definition release_vm :: "pool_state \<Rightarrow> int \<Rightarrow> pool_state" where
  "release_vm s vm_id =
     (if vm_id \<in> set (active s)
      then s\<lparr>active := remove1 vm_id (active s), available := available s @ [vm_id]\<rparr>
      else s)"

definition update_vm_map :: "pool_state \<Rightarrow> int \<Rightarrow> entry \<Rightarrow> pool_state" where
  "update_vm_map s vm_id data = s\<lparr>vm_map := (vm_map s)(vm_id \<mapsto> data)\<rparr>"

definition remove_vm_map :: "pool_state \<Rightarrow> int \<Rightarrow> pool_state" where
  "remove_vm_map s vm_id =
     (if vm_map s vm_id \<noteq> None then s\<lparr>vm_map := (vm_map s)(vm_id := None)\<rparr> else s)"

subsection \<open>The module-level operations\<close>

text \<open>\<^verbatim>\<open>_get_available_vm\<close>: the result and the state the files are left in.\<close>

definition u_get_available_vm :: "pool_state \<Rightarrow> (error + int) \<times> pool_state" where
  "u_get_available_vm s =
     (if available s = [] then (Inl NoAvailableVMs, s)
      else let vm_id = last (available s) in (Inr vm_id, allocate_vm s vm_id))"

text \<open>\<^verbatim>\<open>_release_vm\<close> has no \<^verbatim>\<open>raise\<close> and no call that can raise on the pool data, and it
  returns nothing: the model is the state it leaves. The \<^verbatim>\<open>"all"\<close> branch walks a copy
  of the active list and calls \<^verbatim>\<open>release_vm\<close>, which reads the files again, on each id.\<close>

definition u_release_vm :: "pool_state \<Rightarrow> vm_ref \<Rightarrow> pool_state" where
  "u_release_vm s vm_id =
     (case vm_id of
        IntId i \<Rightarrow> (if i \<le> 50 then release_vm s i else s)
      | StrId str \<Rightarrow> (if str = ''all'' then foldl release_vm s (active s) else s))"

text \<open>\<^verbatim>\<open>_set_timeout\<close> writes a two-key dictionary; it has no check and no \<^verbatim>\<open>raise\<close>.\<close>

definition u_set_timeout :: "pool_state \<Rightarrow> int \<Rightarrow> int \<Rightarrow> pool_state" where
  "u_set_timeout s vm_id tmo =
     update_vm_map s vm_id \<lparr>timeout = Some tmo, lifetime = Some tmo, visited = None\<rparr>"

subsection \<open>One sweep of \<^verbatim>\<open>_check_timeout\<close>\<close>

text \<open>The \<^verbatim>\<open>if\<close>/\<^verbatim>\<open>else\<close> that rewrites the entry of one id.\<close>

definition sweep_entry :: "entry \<Rightarrow> entry" where
  "sweep_entry e =
     (if \<not> dict_get (visited e) False
      then e\<lparr>lifetime := Some (max 0 (dict_get (lifetime e) 0 - 60))\<rparr>
      else e\<lparr>visited := Some False, lifetime := Some (dict_get (timeout e) 0)\<rparr>)"

text \<open>
  The body of the \<^verbatim>\<open>for\<close> loop on the local copies. \<^verbatim>\<open>current_map.get(vm_id, {})\<close>
  returns the dictionary stored in the map when there is one, so the assignments to
  \<^verbatim>\<open>entry\<close> change the map; when there is none they change a fresh dictionary that
  nothing else refers to. \<^verbatim>\<open>active.remove(vm_id)\<close> raises \<^verbatim>\<open>ValueError\<close> when the id is
  not in the list; it runs after \<^verbatim>\<open>available.append\<close>, but the lists are local copies
  that are written only after the loop.
\<close>

definition sweep_step :: "pool_state \<Rightarrow> int \<Rightarrow> error + pool_state" where
  "sweep_step s vm_id =
     (let entry = sweep_entry (dict_get (vm_map s vm_id) empty_entry);
          current_map = (if vm_map s vm_id = None then vm_map s
                         else (vm_map s)(vm_id \<mapsto> entry))
      in if dict_get (lifetime entry) 0 \<le> 0
         then (if vm_id \<in> set (active s)
               then Inr \<lparr>available = available s @ [vm_id],
                         active = remove1 vm_id (active s),
                         vm_map = current_map(vm_id := None)\<rparr>
               else Inl ValueError)
         else Inr (s\<lparr>vm_map := current_map\<rparr>))"

fun sweep_loop :: "int list \<Rightarrow> pool_state \<Rightarrow> error + pool_state" where
  "sweep_loop [] s = Inr s"
| "sweep_loop (vm_id # rest) s =
     (case sweep_step s vm_id of Inl e \<Rightarrow> Inl e | Inr s' \<Rightarrow> sweep_loop rest s')"

text \<open>One pass of the \<^verbatim>\<open>while True\<close> loop: the locked section between two sleeps. An
  exception leaves the \<^verbatim>\<open>with\<close> block before the three writes.\<close>

definition u_check_timeout :: "pool_state \<Rightarrow> error + pool_state" where
  "u_check_timeout s = sweep_loop (active s) s"

subsection \<open>The session handle and the request handlers\<close>

text \<open>
  \<^verbatim>\<open>DesktopEnv\<close> is the external sandbox runtime. What its constructor and its methods
  do during one request is a parameter of the handlers: each call either raises or
  returns, and of the returned values only the \<^verbatim>\<open>done\<close> flag of \<^verbatim>\<open>step\<close> reaches the pool.
\<close>

datatype 'a outcome = Raises | Returns 'a

record runtime =
  env_init :: "unit outcome"
  env_render :: "unit outcome"
  env_reset :: "unit outcome"
  env_step :: "bool outcome"
  env_evaluate :: "unit outcome"

text \<open>The handle, with the keyword arguments of the constructor call: \<^verbatim>\<open>provider_name\<close>,
  \<^verbatim>\<open>action_space\<close>, \<^verbatim>\<open>require_a11y_tree\<close>, \<^verbatim>\<open>os_type\<close>.\<close>

datatype desktop_env = DesktopEnv string string bool string

definition u_get_vm_env :: "runtime \<Rightarrow> pool_state \<Rightarrow> int \<Rightarrow> error + desktop_env" where
  "u_get_vm_env rt s vm_id =
     (if vm_id \<notin> set (active s) then Inl (VMNotAvailable vm_id)
      else (case env_init rt of
              Raises \<Rightarrow> Inl RuntimeFailure
            | Returns _ \<Rightarrow> Inr (DesktopEnv ''docker'' ''os_gym'' False ''Ubuntu'')))"

text \<open>A handler answers with a JSON body, or with status 400 and the message of the
  exception it caught; the model keeps the exception in place of its message.\<close>

datatype response =
    JSONResponse400 error
  | ScreenshotOk int
  | ResetOk int
  | StepOk bool
  | ShutdownOk vm_ref

definition screenshot :: "runtime \<Rightarrow> pool_state \<Rightarrow> int \<Rightarrow> response \<times> pool_state" where
  "screenshot rt s vm_id =
     (case u_get_vm_env rt s vm_id of
        Inl e \<Rightarrow> (JSONResponse400 e, s)
      | Inr vm_env \<Rightarrow>
          (case env_render rt of
             Raises \<Rightarrow> (JSONResponse400 RuntimeFailure, s)
           | Returns _ \<Rightarrow> (ScreenshotOk vm_id, s)))"

definition reset :: "runtime \<Rightarrow> pool_state \<Rightarrow> int \<Rightarrow> response \<times> pool_state" where
  "reset rt s tmo =
     (case u_get_available_vm s of
        (Inl e, s1) \<Rightarrow> (JSONResponse400 e, s1)
      | (Inr vm_id, s1) \<Rightarrow>
          (case u_get_vm_env rt s1 vm_id of
             Inl e \<Rightarrow> (JSONResponse400 e, s1)
           | Inr vm_env \<Rightarrow>
               (case env_reset rt of
                  Raises \<Rightarrow> (JSONResponse400 RuntimeFailure, s1)
                | Returns _ \<Rightarrow> (ResetOk vm_id, u_set_timeout s1 vm_id tmo))))"

definition step :: "runtime \<Rightarrow> pool_state \<Rightarrow> int \<Rightarrow> response \<times> pool_state" where
  "step rt s vm_id =
     (case u_get_vm_env rt s vm_id of
        Inl e \<Rightarrow> (JSONResponse400 e, s)
      | Inr vm_env \<Rightarrow>
          (case env_step rt of
             Raises \<Rightarrow> (JSONResponse400 RuntimeFailure, s)
           | Returns done \<Rightarrow>
               (if done
                then (case env_evaluate rt of
                        Raises \<Rightarrow> (JSONResponse400 RuntimeFailure, s)
                      | Returns _ \<Rightarrow> (StepOk done, u_release_vm s (IntId vm_id)))
                else (StepOk done, s))))"

definition shutdown :: "pool_state \<Rightarrow> vm_ref \<Rightarrow> response \<times> pool_state" where
  "shutdown s vm_id = (ShutdownOk vm_id, u_release_vm s vm_id)"

subsection \<open>Reachable states\<close>

text \<open>The states the files can hold: the initial content, and whatever a locked section
  writes from a reachable content. A sweep that raises writes nothing.\<close>

inductive reachable :: "pool_state \<Rightarrow> bool" where
  initial: "reachable init_state"
| allocate: "reachable s \<Longrightarrow> reachable (snd (u_get_available_vm s))"
| release: "reachable s \<Longrightarrow> reachable (u_release_vm s vm_id)"
| set_lease: "reachable s \<Longrightarrow> reachable (u_set_timeout s vm_id tmo)"
| sweep: "reachable s \<Longrightarrow> u_check_timeout s = Inr s' \<Longrightarrow> reachable s'"

text \<open>The pool invariant: every id of the range is in exactly one of the two lists,
  exactly once.\<close>

definition pool_inv :: "pool_state \<Rightarrow> bool" where
  "pool_inv s \<longleftrightarrow>
     set (available s) \<inter> set (active s) = {} \<and>
     set (available s) \<union> set (active s) = {0..50} \<and>
     distinct (available s) \<and> distinct (active s)"

text \<open>What a sweep makes of the entry of an id, and whether the id is reclaimed by it.\<close>

definition next_entry :: "pool_state \<Rightarrow> int \<Rightarrow> entry" where
  "next_entry s vm_id = sweep_entry (dict_get (vm_map s vm_id) empty_entry)"

definition expires :: "pool_state \<Rightarrow> int \<Rightarrow> bool" where
  "expires s vm_id \<longleftrightarrow> dict_get (lifetime (next_entry s vm_id)) 0 \<le> 0"

text \<open>The ids of both lists, counted with their multiplicity.\<close>

definition ids :: "pool_state \<Rightarrow> int multiset" where
  "ids s = mset (available s) + mset (active s)"

text \<open>The state a sweep over the ids \<open>xs\<close> leaves, in closed form.\<close>

definition swept :: "int list \<Rightarrow> pool_state \<Rightarrow> pool_state" where
  "swept xs s =
     \<lparr>available = available s @ filter (expires s) xs,
      active = filter (\<lambda>i. \<not> (i \<in> set xs \<and> expires s i)) (active s),
      vm_map = (\<lambda>i. if i \<in> set xs
                     then (if expires s i then None else Some (next_entry s i))
                     else vm_map s i)\<rparr>"

subsection \<open>Example runs\<close>

text \<open>A runtime in which every call returns (and \<^verbatim>\<open>step\<close> reports \<^verbatim>\<open>done = False\<close>), and one
  in which \<^verbatim>\<open>DesktopEnv.reset\<close> raises.\<close>

definition all_ok :: runtime where
  "all_ok = \<lparr>env_init = Returns (), env_render = Returns (), env_reset = Returns (),
             env_step = Returns False, env_evaluate = Returns ()\<rparr>"

definition reset_fails :: runtime where
  "reset_fails = all_ok\<lparr>env_reset := Raises\<rparr>"

text \<open>The files after one successful \<^verbatim>\<open>POST /reset\<close> on a fresh pool, after one whose
  \<^verbatim>\<open>DesktopEnv.reset\<close> raised, and after 51 allocations.\<close>

definition fresh_lease :: "int \<Rightarrow> pool_state" where
  "fresh_lease tmo = snd (reset all_ok init_state tmo)"

definition leaked_lease :: pool_state where
  "leaked_lease = snd (reset reset_fails init_state 100)"

definition exhausted :: pool_state where
  "exhausted = ((\<lambda>s. snd (u_get_available_vm s)) ^^ 51) init_state"

section \<open>The pool invariant\<close>

lemma ids_imp_inv:
  assumes "ids s = mset [0..50]"
  shows "pool_inv s"
proof -
  have m: "mset (available s @ active s) = mset [0..50::int]" using assms by (simp add: ids_def)
  have "distinct (available s @ active s)" using mset_eq_imp_distinct_iff[OF m] by simp
  moreover have "set (available s @ active s) = {0..50}" using mset_eq_setD[OF m] by simp
  ultimately show ?thesis by (auto simp: pool_inv_def)
qed

lemma ids_init: "ids init_state = mset [0..50]"
  by (simp add: ids_def init_state_def)

lemma ids_allocate_vm: "ids (allocate_vm s v) = ids s"
  by (simp add: ids_def allocate_vm_def)

lemma ids_release_vm: "ids (release_vm s v) = ids s"
  by (simp add: ids_def release_vm_def)

lemma ids_foldl_release: "ids (foldl release_vm s xs) = ids s"
  by (induction xs arbitrary: s) (simp_all add: ids_release_vm)

lemma ids_u_release: "ids (u_release_vm s r) = ids s"
  by (cases r) (simp_all add: u_release_vm_def ids_release_vm ids_foldl_release)

lemma ids_get_available: "ids (snd (u_get_available_vm s)) = ids s"
  by (simp add: u_get_available_vm_def Let_def ids_allocate_vm)

lemma ids_set_timeout: "ids (u_set_timeout s v t) = ids s"
  by (simp add: ids_def u_set_timeout_def update_vm_map_def)

lemma ids_sweep_step: "sweep_step s v = Inr s' \<Longrightarrow> ids s' = ids s"
  by (auto simp: ids_def sweep_step_def Let_def split: if_splits)

lemma ids_sweep_loop: "sweep_loop xs s = Inr s' \<Longrightarrow> ids s' = ids s"
proof (induction xs arbitrary: s)
  case Nil then show ?case by simp
next
  case (Cons v xs)
  then show ?case by (auto split: sum.splits dest: ids_sweep_step)
qed

lemma reachable_ids: "reachable s \<Longrightarrow> ids s = mset [0..50]"
proof (induction rule: reachable.induct)
  case initial show ?case by (rule ids_init)
next
  case (sweep s s') then show ?case by (auto simp: u_check_timeout_def dest: ids_sweep_loop)
qed (simp_all add: ids_get_available ids_u_release ids_set_timeout)

lemma reachable_inv: "reachable s \<Longrightarrow> pool_inv s"
  by (rule ids_imp_inv) (rule reachable_ids)

section \<open>The sweep in closed form\<close>

lemma sweep_entry_empty: "sweep_entry empty_entry = \<lparr>timeout = None, lifetime = Some 0, visited = None\<rparr>"
  by (simp add: sweep_entry_def empty_entry_def dict_get_def)

lemma expires_no_entry: "vm_map s v = None \<Longrightarrow> expires s v"
  by (simp add: expires_def next_entry_def sweep_entry_empty dict_get_def)

lemma sweep_step_expired:
  "expires s v \<Longrightarrow> v \<in> set (active s) \<Longrightarrow>
   sweep_step s v = Inr \<lparr>available = available s @ [v], active = remove1 v (active s),
                         vm_map = (vm_map s)(v := None)\<rparr>"
  by (auto simp: sweep_step_def Let_def expires_def next_entry_def)

lemma sweep_step_kept:
  "\<not> expires s v \<Longrightarrow> sweep_step s v = Inr (s\<lparr>vm_map := (vm_map s)(v \<mapsto> next_entry s v)\<rparr>)"
  using expires_no_entry[of s v]
  by (auto simp: sweep_step_def Let_def expires_def next_entry_def)

lemma expires_cong: "vm_map s' i = vm_map s i \<Longrightarrow> expires s' i = expires s i"
  by (simp add: expires_def next_entry_def)

lemma next_entry_cong: "vm_map s' i = vm_map s i \<Longrightarrow> next_entry s' i = next_entry s i"
  by (simp add: next_entry_def)

lemma sweep_loop_swept:
  "distinct xs \<Longrightarrow> distinct (active s) \<Longrightarrow> set xs \<subseteq> set (active s) \<Longrightarrow>
   sweep_loop xs s = Inr (swept xs s)"
proof (induction xs arbitrary: s)
  case Nil
  then show ?case by (simp add: swept_def)
next
  case (Cons v xs)
  show ?case
  proof (cases "expires s v")
    case True
    let ?s' = "\<lparr>available = available s @ [v], active = remove1 v (active s),
                 vm_map = (vm_map s)(v := None)\<rparr>"
    have st: "sweep_step s v = Inr ?s'" using True Cons.prems by (simp add: sweep_step_expired)
    have e: "\<And>i. i \<in> set xs \<Longrightarrow> expires ?s' i = expires s i"
      using Cons.prems by (intro expires_cong) auto
    have n: "\<And>i. i \<in> set xs \<Longrightarrow> next_entry ?s' i = next_entry s i"
      using Cons.prems by (intro next_entry_cong) auto
    have "sweep_loop xs ?s' = Inr (swept xs ?s')"
      using Cons.prems by (intro Cons.IH) auto
    moreover have "swept xs ?s' = swept (v # xs) s"
      using Cons.prems True e n
      by (auto simp: swept_def fun_eq_iff distinct_remove1_removeAll removeAll_filter_not_eq
               intro!: filter_cong)
    ultimately show ?thesis using st by simp
  next
    case False
    let ?s' = "s\<lparr>vm_map := (vm_map s)(v \<mapsto> next_entry s v)\<rparr>"
    have st: "sweep_step s v = Inr ?s'" using False by (simp add: sweep_step_kept)
    have e: "\<And>i. i \<in> set xs \<Longrightarrow> expires ?s' i = expires s i"
      using Cons.prems by (intro expires_cong) auto
    have n: "\<And>i. i \<in> set xs \<Longrightarrow> next_entry ?s' i = next_entry s i"
      using Cons.prems by (intro next_entry_cong) auto
    have "sweep_loop xs ?s' = Inr (swept xs ?s')"
      using Cons.prems by (intro Cons.IH) auto
    moreover have "swept xs ?s' = swept (v # xs) s"
      using Cons.prems False e n
      by (auto simp: swept_def fun_eq_iff intro!: filter_cong)
    ultimately show ?thesis using st by simp
  qed
qed

lemma u_check_timeout_swept:
  "distinct (active s) \<Longrightarrow> u_check_timeout s = Inr (swept (active s) s)"
  by (simp add: u_check_timeout_def sweep_loop_swept)

lemma swept_distinct: "distinct (active s) \<Longrightarrow> distinct (active (swept xs s))"
  by (simp add: swept_def)

lemma sweep_entry_cases:
  "sweep_entry e =
     (if visited e = Some True
      then e\<lparr>visited := Some False, lifetime := Some (dict_get (timeout e) 0)\<rparr>
      else e\<lparr>lifetime := Some (max 0 (dict_get (lifetime e) 0 - 60))\<rparr>)"
  by (cases "visited e") (auto simp: sweep_entry_def dict_get_def)

section \<open>The sweep on any state\<close>

lemma sweep_step_member:
  "w \<in> set (active s) \<Longrightarrow> \<exists>s'. sweep_step s w = Inr s' \<and>
     (\<forall>i. i \<noteq> w \<longrightarrow> vm_map s' i = vm_map s i) \<and>
     (vm_map s w = None \<longrightarrow> vm_map s' w = None \<and> active s' = remove1 w (active s)
         \<and> available s' = available s @ [w]) \<and>
     (active s' = active s \<and> available s' = available s \<or>
      active s' = remove1 w (active s) \<and> available s' = available s @ [w])"
  using expires_no_entry[of s w]
  by (cases "expires s w") (auto simp: sweep_step_expired sweep_step_kept)

lemma sweep_loop_unrecorded:
  "mset xs \<subseteq># mset (active s) \<Longrightarrow> vm_map s v = None \<Longrightarrow>
   \<exists>s'. sweep_loop xs s = Inr s' \<and> vm_map s' v = None \<and>
     count (mset (active s')) v = count (mset (active s)) v - count (mset xs) v \<and>
     count (mset (available s')) v = count (mset (available s)) v + count (mset xs) v"
proof (induction xs arbitrary: s)
  case Nil
  then show ?case by simp
next
  case (Cons w xs)
  have w: "w \<in> set (active s)" using Cons.prems(1)
    by (metis list.set_intros(1) mset_subset_eqD set_mset_mset)
  from sweep_step_member[OF w] obtain s1 where all:
    "sweep_step s w = Inr s1 \<and>
     (\<forall>i. i \<noteq> w \<longrightarrow> vm_map s1 i = vm_map s i) \<and>
     (vm_map s w = None \<longrightarrow> vm_map s1 w = None \<and> active s1 = remove1 w (active s)
         \<and> available s1 = available s @ [w]) \<and>
     (active s1 = active s \<and> available s1 = available s \<or>
      active s1 = remove1 w (active s) \<and> available s1 = available s @ [w])" ..
  have s1: "sweep_step s w = Inr s1" using all by simp
  have oth: "\<And>i. i \<noteq> w \<Longrightarrow> vm_map s1 i = vm_map s i" using all by simp
  have non: "vm_map s w = None \<Longrightarrow> vm_map s1 w = None \<and> active s1 = remove1 w (active s)
         \<and> available s1 = available s @ [w]" using all by simp
  have lists: "active s1 = active s \<and> available s1 = available s \<or>
      active s1 = remove1 w (active s) \<and> available s1 = available s @ [w]" using all by simp
  have sub: "mset xs \<subseteq># mset (active s1)"
  proof -
    have "mset xs \<subseteq># mset (active s) - {#w#}"
      using Cons.prems(1) by (simp add: insert_subset_eq_iff)
    moreover have "mset (active s) - {#w#} \<subseteq># mset (active s1)"
      using lists by auto
    ultimately show ?thesis by (rule subset_mset.order_trans)
  qed
  have m1: "vm_map s1 v = None" using Cons.prems(2) oth non by (cases "v = w") auto
  from Cons.IH[OF sub m1] obtain s' where
    l: "sweep_loop xs s1 = Inr s'" and m: "vm_map s' v = None"
    and ca: "count (mset (active s')) v = count (mset (active s1)) v - count (mset xs) v"
    and cv: "count (mset (available s')) v = count (mset (available s1)) v + count (mset xs) v"
    by blast
  have "sweep_loop (w # xs) s = Inr s'" using s1 l by simp
  moreover have "count (mset (active s')) v = count (mset (active s)) v - count (mset (w # xs)) v"
    using ca lists non Cons.prems(2) by (cases "v = w") auto
  moreover have "count (mset (available s')) v = count (mset (available s)) v + count (mset (w # xs)) v"
    using cv lists non Cons.prems(2) by (cases "v = w") auto
  ultimately show ?case using m by blast
qed

lemma sweep_step_lists:
  "w \<in> set (active s) \<Longrightarrow> \<exists>s'. sweep_step s w = Inr s' \<and>
     mset (active s) - {#w#} \<subseteq># mset (active s')"
  by (cases "expires s w") (auto simp: sweep_step_expired sweep_step_kept)

lemma sweep_loop_total:
  "mset xs \<subseteq># mset (active s) \<Longrightarrow> \<exists>s'. sweep_loop xs s = Inr s'"
proof (induction xs arbitrary: s)
  case Nil
  then show ?case by simp
next
  case (Cons w xs)
  have w: "w \<in> set (active s)" using Cons.prems
    by (metis list.set_intros(1) mset_subset_eqD set_mset_mset)
  from sweep_step_lists[OF w] obtain s1 where
    s1: "sweep_step s w = Inr s1 \<and> mset (active s) - {#w#} \<subseteq># mset (active s1)" ..
  have "mset xs \<subseteq># mset (active s) - {#w#}"
    using Cons.prems by (simp add: insert_subset_eq_iff)
  then have "mset xs \<subseteq># mset (active s1)"
    using s1 by (blast intro: subset_mset.order_trans)
  from Cons.IH[OF this] show ?case using s1 by simp
qed

lemma u_check_timeout_total: "\<exists>s'. u_check_timeout s = Inr s'"
  by (simp add: u_check_timeout_def sweep_loop_total)

section \<open>Release\<close>

lemma active_release_vm: "active (release_vm s v) = remove1 v (active s)"
  by (simp add: release_vm_def remove1_idem)

lemma active_foldl_release:
  "active (foldl release_vm s xs) = foldl (\<lambda>a v. remove1 v a) (active s) xs"
  by (induction xs arbitrary: s) (simp_all add: active_release_vm)

lemma foldl_remove1_self: "foldl (\<lambda>a v. remove1 v a) (xs @ ys) xs = ys"
  by (induction xs) simp_all

lemma active_release_all: "active (foldl release_vm s (active s)) = []"
  using foldl_remove1_self[of "active s" "[]"] by (simp add: active_foldl_release)

lemma release_vm_twice:
  "distinct (active s) \<Longrightarrow> release_vm (release_vm s v) v = release_vm s v"
  by (simp add: release_vm_def)

lemma release_vm_absent: "v \<notin> set (active s) \<Longrightarrow> release_vm s v = s"
  by (simp add: release_vm_def)

lemma u_release_idem:
  "distinct (active s) \<Longrightarrow> u_release_vm (u_release_vm s r) r = u_release_vm s r"
proof (cases r)
  case (IntId i)
  assume "distinct (active s)"
  then show ?thesis using IntId by (simp add: u_release_vm_def release_vm_twice)
next
  case (StrId str)
  show ?thesis using StrId by (simp add: u_release_vm_def active_release_all)
qed

lemma u_release_noop:
  "pool_inv s \<Longrightarrow> i \<in> set (available s) \<or> i \<notin> {0..50} \<Longrightarrow> u_release_vm s (IntId i) = s"
  by (auto simp: pool_inv_def u_release_vm_def release_vm_def)

section \<open>Session handles\<close>

lemma get_vm_env_iff:
  "u_get_vm_env rt s vm_id = Inl (VMNotAvailable vm_id) \<longleftrightarrow> vm_id \<notin> set (active s)"
  by (simp add: u_get_vm_env_def split: outcome.splits)

lemma shutdown_unleases:
  "pool_inv s \<Longrightarrow> vm_id \<notin> set (active (snd (shutdown s (IntId vm_id))))"
  by (auto simp: pool_inv_def shutdown_def u_release_vm_def release_vm_def)

lemma screenshot_unleased:
  "vm_id \<notin> set (active s) \<Longrightarrow> screenshot rt s vm_id = (JSONResponse400 (VMNotAvailable vm_id), s)"
  by (simp add: screenshot_def u_get_vm_env_def)

section \<open>Who writes the lease entries\<close>

lemma vm_map_release_vm: "vm_map (release_vm s v) = vm_map s"
  by (simp add: release_vm_def)

lemma vm_map_foldl_release: "vm_map (foldl release_vm s xs) = vm_map s"
  by (induction xs arbitrary: s) (simp_all add: vm_map_release_vm)

lemma vm_map_u_release: "vm_map (u_release_vm s r) = vm_map s"
  by (cases r) (simp_all add: u_release_vm_def vm_map_release_vm vm_map_foldl_release)

lemma vm_map_screenshot: "vm_map (snd (screenshot rt s vm_id)) = vm_map s"
  by (simp add: screenshot_def split: sum.splits outcome.splits)

lemma vm_map_step: "vm_map (snd (step rt s vm_id)) = vm_map s"
  by (simp add: step_def vm_map_u_release split: sum.splits outcome.splits)

section \<open>Allocation\<close>

lemma remove1_last_distinct: "xs \<noteq> [] \<Longrightarrow> distinct xs \<Longrightarrow> remove1 (last xs) xs = butlast xs"
proof -
  assume a: "xs \<noteq> []" and d: "distinct xs"
  have xs: "xs = butlast xs @ [last xs]" using a by simp
  have "distinct (butlast xs @ [last xs])" using d xs by simp
  then have "last xs \<notin> set (butlast xs)" by simp
  then have "remove1 (last xs) (butlast xs @ [last xs]) = butlast xs" by (simp add: remove1_append)
  then show ?thesis using xs by simp
qed

lemma allocate_all:
  "distinct xs \<Longrightarrow>
   ((\<lambda>s. snd (u_get_available_vm s)) ^^ length xs) \<lparr>available = xs, active = ys, vm_map = m\<rparr>
     = \<lparr>available = [], active = ys @ rev xs, vm_map = m\<rparr>"
proof (induction xs arbitrary: ys rule: rev_induct)
  case Nil
  then show ?case by simp
next
  case (snoc x xs)
  define f where "f = (\<lambda>s. snd (u_get_available_vm s))"
  have st: "f \<lparr>available = xs @ [x], active = ys, vm_map = m\<rparr>
            = \<lparr>available = xs, active = ys @ [x], vm_map = m\<rparr>"
    using snoc.prems remove1_last_distinct[of "xs @ [x]"]
    by (simp add: f_def u_get_available_vm_def allocate_vm_def Let_def)
  have "distinct xs" using snoc.prems by simp
  from snoc.IH[OF this, of "ys @ [x]"]
  have ih: "(f ^^ length xs) \<lparr>available = xs, active = ys @ [x], vm_map = m\<rparr>
            = \<lparr>available = [], active = (ys @ [x]) @ rev xs, vm_map = m\<rparr>"
    by (simp add: f_def)
  have "(f ^^ length (xs @ [x])) \<lparr>available = xs @ [x], active = ys, vm_map = m\<rparr>
        = (f ^^ length xs) (f \<lparr>available = xs @ [x], active = ys, vm_map = m\<rparr>)"
    by (simp add: funpow_swap1)
  then show ?case using st ih by (simp add: f_def)
qed

lemma allocate_whole_range:
  "((\<lambda>s. snd (u_get_available_vm s)) ^^ 51) init_state
     = \<lparr>available = [], active = [0..50], vm_map = Map.empty\<rparr>"
proof -
  have l: "length (rev [0..50::int]) = 51" by simp
  have d: "distinct (rev [0..50::int])" by simp
  show ?thesis using allocate_all[OF d, of "[]" Map.empty] by (simp add: init_state_def)
qed

section \<open>The example runs, evaluated\<close>

lemma upto_0_50: "[0..50::int] = 0 # [1..50]"
  by (simp add: upto_rec1)

lemma first_allocation:
  "u_get_available_vm init_state =
     (Inr 0, \<lparr>available = rev [1..50], active = [0], vm_map = Map.empty\<rparr>)"
  by (simp add: u_get_available_vm_def allocate_vm_def init_state_def upto_0_50 remove1_append)

lemma fresh_lease_eq:
  "fresh_lease tmo =
     \<lparr>available = rev [1..50], active = [0],
      vm_map = [0 \<mapsto> \<lparr>timeout = Some tmo, lifetime = Some tmo, visited = None\<rparr>]\<rparr>"
  by (simp add: fresh_lease_def reset_def first_allocation u_get_vm_env_def all_ok_def
                u_set_timeout_def update_vm_map_def)

lemma reset_fresh: "fst (reset all_ok init_state tmo) = ResetOk 0"
  by (simp add: reset_def first_allocation u_get_vm_env_def all_ok_def)

lemma leaked_lease_eq:
  "leaked_lease = \<lparr>available = rev [1..50], active = [0], vm_map = Map.empty\<rparr>"
  by (simp add: leaked_lease_def reset_def first_allocation u_get_vm_env_def all_ok_def reset_fails_def)

lemma reset_leaks: "fst (reset reset_fails init_state tmo) = JSONResponse400 RuntimeFailure"
  by (simp add: reset_def first_allocation u_get_vm_env_def all_ok_def reset_fails_def)

lemma exhausted_eq: "exhausted = \<lparr>available = [], active = [0..50], vm_map = Map.empty\<rparr>"
  unfolding exhausted_def by (rule allocate_whole_range)

lemma reachable_fresh_lease: "reachable (fresh_lease tmo)"
proof -
  have "fresh_lease tmo = u_set_timeout (snd (u_get_available_vm init_state)) 0 tmo"
    by (simp add: fresh_lease_def reset_def first_allocation u_get_vm_env_def all_ok_def)
  then show ?thesis by (simp add: reachable.intros)
qed

lemma pool_inv_fresh_lease: "pool_inv (fresh_lease tmo)"
  by (rule reachable_inv) (rule reachable_fresh_lease)

lemma sweep_one_lease:
  assumes "distinct (active s)" and "vm_id \<in> set (active s)"
  shows "\<exists>s'. u_check_timeout s = Inr s' \<and>
     (let e = dict_get (vm_map s vm_id) empty_entry;
          l = (if visited e = Some True then dict_get (timeout e) 0
               else max 0 (dict_get (lifetime e) 0 - 60))
      in if l \<le> 0
         then vm_id \<notin> set (active s') \<and> vm_id \<in> set (available s') \<and> vm_map s' vm_id = None
         else vm_id \<in> set (active s') \<and>
              (vm_id \<in> set (available s') \<longleftrightarrow> vm_id \<in> set (available s)) \<and>
              vm_map s' vm_id =
                Some (e\<lparr>lifetime := Some l,
                        visited := (if visited e = Some True then Some False else visited e)\<rparr>))"
proof -
  have "u_check_timeout s = Inr (swept (active s) s)"
    using assms(1) by (rule u_check_timeout_swept)
  moreover have "(let e = dict_get (vm_map s vm_id) empty_entry;
          l = (if visited e = Some True then dict_get (timeout e) 0
               else max 0 (dict_get (lifetime e) 0 - 60))
      in if l \<le> 0
         then vm_id \<notin> set (active (swept (active s) s)) \<and> vm_id \<in> set (available (swept (active s) s)) \<and> vm_map (swept (active s) s) vm_id = None
         else vm_id \<in> set (active (swept (active s) s)) \<and>
              (vm_id \<in> set (available (swept (active s) s)) \<longleftrightarrow> vm_id \<in> set (available s)) \<and>
              vm_map (swept (active s) s) vm_id =
                Some (e\<lparr>lifetime := Some l,
                        visited := (if visited e = Some True then Some False else visited e)\<rparr>))"
    using assms(2)
    by (auto simp: swept_def expires_def next_entry_def sweep_entry_cases dict_get_def Let_def)
  ultimately show ?thesis by blast
qed

lemma swept_after_set_timeout:
  "vm_id \<in> set (active s) \<Longrightarrow>
   vm_map (swept (active (u_set_timeout s vm_id 120)) (u_set_timeout s vm_id 120)) vm_id
     = Some \<lparr>timeout = Some 120, lifetime = Some 60, visited = None\<rparr> \<and>
   vm_id \<in> set (active (swept (active (u_set_timeout s vm_id 120)) (u_set_timeout s vm_id 120)))"
  by (simp add: swept_def expires_def next_entry_def sweep_entry_cases dict_get_def
                u_set_timeout_def update_vm_map_def)

section \<open>The claims\<close>

text \<open>
  C1. In every state reachable from the initial state (free = the ids 0 to 50, leased
  empty) by any sequence of allocations, releases (of one id, of \<^verbatim>\<open>"all"\<close>, or of any
  other request value), lease settings and reaper sweeps, the free list and the leased
  list have no id in common, together hold exactly the ids 0 to 50, and neither holds
  an id twice.
\<close>

theorem pool_invariant_reachable:
  "reachable s \<Longrightarrow>
   set (available s) \<inter> set (active s) = {} \<and>
   set (available s) \<union> set (active s) = {0..50} \<and>
   distinct (available s) \<and> distinct (active s)"
  using reachable_inv[of s] by (simp add: pool_inv_def)

theorem pool_invariant_reachable_witness:
  "reachable (u_release_vm (fresh_lease 100) (StrId ''all'')) \<and>
   set (available (u_release_vm (fresh_lease 100) (StrId ''all'')))
     \<inter> set (active (u_release_vm (fresh_lease 100) (StrId ''all''))) = {} \<and>
   set (available (u_release_vm (fresh_lease 100) (StrId ''all'')))
     \<union> set (active (u_release_vm (fresh_lease 100) (StrId ''all''))) = {0..50} \<and>
   distinct (available (u_release_vm (fresh_lease 100) (StrId ''all''))) \<and>
   distinct (active (u_release_vm (fresh_lease 100) (StrId ''all'')))"
proof -
  have r: "reachable (u_release_vm (fresh_lease 100) (StrId ''all''))"
    by (intro reachable.release reachable_fresh_lease)
  show ?thesis using r pool_invariant_reachable[OF r] by simp
qed

text \<open>
  C2. One reaper sweep treats each leased id as follows, whatever the other leases are.
  With \<open>e\<close> the entry of the id (the empty dictionary when it has none): if the
  \<^verbatim>\<open>visited\<close> flag is set, the lifetime becomes the timeout and the flag is cleared;
  otherwise the lifetime drops by 60, but not below 0. An id whose lifetime is then at
  most 0 leaves the leased list, joins the free list and loses its entry; any other id
  stays leased with the rewritten entry. In particular, for an id leased with timeout
  120, two sweeps in a row free it, while a sweep, the flag being set, and a second
  sweep keep it leased with lifetime 120 and the flag cleared.
\<close>

theorem reaper_sweep_per_lease:
  assumes "distinct (active s)" and "vm_id \<in> set (active s)"
  shows
   "(\<exists>s'. u_check_timeout s = Inr s' \<and>
      (let e = dict_get (vm_map s vm_id) empty_entry;
           l = (if visited e = Some True then dict_get (timeout e) 0
                else max 0 (dict_get (lifetime e) 0 - 60))
       in if l \<le> 0
          then vm_id \<notin> set (active s') \<and> vm_id \<in> set (available s') \<and>
               vm_map s' vm_id = None
          else vm_id \<in> set (active s') \<and>
               (vm_id \<in> set (available s') \<longleftrightarrow> vm_id \<in> set (available s)) \<and>
               vm_map s' vm_id =
                 Some (e\<lparr>lifetime := Some l,
                         visited := (if visited e = Some True then Some False
                                     else visited e)\<rparr>))) \<and>
    (\<exists>s1 s2. u_check_timeout (u_set_timeout s vm_id 120) = Inr s1 \<and>
       vm_id \<in> set (active s1) \<and>
       vm_map s1 vm_id = Some \<lparr>timeout = Some 120, lifetime = Some 60, visited = None\<rparr> \<and>
       u_check_timeout s1 = Inr s2 \<and>
       vm_id \<notin> set (active s2) \<and> vm_id \<in> set (available s2) \<and> vm_map s2 vm_id = None) \<and>
    (\<exists>s1 e1 s2. u_check_timeout (u_set_timeout s vm_id 120) = Inr s1 \<and>
       vm_map s1 vm_id = Some e1 \<and>
       u_check_timeout (s1\<lparr>vm_map := (vm_map s1)(vm_id \<mapsto> e1\<lparr>visited := Some True\<rparr>)\<rparr>) = Inr s2 \<and>
       vm_id \<in> set (active s2) \<and>
       vm_map s2 vm_id = Some \<lparr>timeout = Some 120, lifetime = Some 120, visited = Some False\<rparr>)"
proof (intro conjI)
  show "\<exists>s'. u_check_timeout s = Inr s' \<and>
      (let e = dict_get (vm_map s vm_id) empty_entry;
           l = (if visited e = Some True then dict_get (timeout e) 0
                else max 0 (dict_get (lifetime e) 0 - 60))
       in if l \<le> 0
          then vm_id \<notin> set (active s') \<and> vm_id \<in> set (available s') \<and>
               vm_map s' vm_id = None
          else vm_id \<in> set (active s') \<and>
               (vm_id \<in> set (available s') \<longleftrightarrow> vm_id \<in> set (available s)) \<and>
               vm_map s' vm_id =
                 Some (e\<lparr>lifetime := Some l,
                         visited := (if visited e = Some True then Some False
                                     else visited e)\<rparr>))"
    using assms by (rule sweep_one_lease)
next
  let ?s0 = "u_set_timeout s vm_id 120"
  let ?s1 = "swept (active ?s0) ?s0"
  have d0: "distinct (active ?s0)" and m0: "vm_id \<in> set (active ?s0)"
    using assms by (simp_all add: u_set_timeout_def update_vm_map_def)
  have c1: "u_check_timeout ?s0 = Inr ?s1" using d0 by (rule u_check_timeout_swept)
  have e1: "vm_map ?s1 vm_id = Some \<lparr>timeout = Some 120, lifetime = Some 60, visited = None\<rparr>"
    using assms(2) by (simp add: swept_after_set_timeout)
  have a1: "vm_id \<in> set (active ?s1)"
    using assms(2) by (simp add: swept_after_set_timeout)
  have d1: "distinct (active ?s1)"
    using d0 by (rule swept_distinct)
  show "\<exists>s1 s2. u_check_timeout ?s0 = Inr s1 \<and>
       vm_id \<in> set (active s1) \<and>
       vm_map s1 vm_id = Some \<lparr>timeout = Some 120, lifetime = Some 60, visited = None\<rparr> \<and>
       u_check_timeout s1 = Inr s2 \<and>
       vm_id \<notin> set (active s2) \<and> vm_id \<in> set (available s2) \<and> vm_map s2 vm_id = None"
  proof -
    from sweep_one_lease[OF d1 a1] obtain s2 where
      "u_check_timeout ?s1 = Inr s2 \<and>
       vm_id \<notin> set (active s2) \<and> vm_id \<in> set (available s2) \<and> vm_map s2 vm_id = None"
      by (auto simp: e1 dict_get_def Let_def)
    then show ?thesis using c1 a1 e1 by blast
  qed
  show "\<exists>s1 e1 s2. u_check_timeout ?s0 = Inr s1 \<and>
       vm_map s1 vm_id = Some e1 \<and>
       u_check_timeout (s1\<lparr>vm_map := (vm_map s1)(vm_id \<mapsto> e1\<lparr>visited := Some True\<rparr>)\<rparr>) = Inr s2 \<and>
       vm_id \<in> set (active s2) \<and>
       vm_map s2 vm_id = Some \<lparr>timeout = Some 120, lifetime = Some 120, visited = Some False\<rparr>"
  proof -
    let ?e1 = "\<lparr>timeout = Some 120, lifetime = Some 60, visited = None\<rparr>"
    let ?h = "?s1\<lparr>vm_map := (vm_map ?s1)(vm_id \<mapsto> ?e1\<lparr>visited := Some True\<rparr>)\<rparr>"
    have dh: "distinct (active ?h)" and ah: "vm_id \<in> set (active ?h)"
      using d1 a1 by simp_all
    from sweep_one_lease[OF dh ah] obtain s2 where
      "u_check_timeout ?h = Inr s2 \<and> vm_id \<in> set (active s2) \<and>
       vm_map s2 vm_id = Some \<lparr>timeout = Some 120, lifetime = Some 120, visited = Some False\<rparr>"
      by (auto simp: dict_get_def Let_def)
    then show ?thesis using c1 e1 by blast
  qed
qed

theorem reaper_sweep_per_lease_witness:
  "distinct (active (fresh_lease 120)) \<and> 0 \<in> set (active (fresh_lease 120)) \<and>
   (\<exists>s'. u_check_timeout (fresh_lease 120) = Inr s' \<and>
      0 \<in> set (active s') \<and> 0 \<notin> set (available s') \<and>
      vm_map s' 0 = Some \<lparr>timeout = Some 120, lifetime = Some 60, visited = None\<rparr>) \<and>
   (\<exists>s1 s2. u_check_timeout (u_set_timeout (fresh_lease 120) 0 120) = Inr s1 \<and>
      0 \<in> set (active s1) \<and>
      vm_map s1 0 = Some \<lparr>timeout = Some 120, lifetime = Some 60, visited = None\<rparr> \<and>
      u_check_timeout s1 = Inr s2 \<and>
      0 \<notin> set (active s2) \<and> 0 \<in> set (available s2) \<and> vm_map s2 0 = None) \<and>
   (\<exists>s1 e1 s2. u_check_timeout (u_set_timeout (fresh_lease 120) 0 120) = Inr s1 \<and>
      vm_map s1 0 = Some e1 \<and>
      u_check_timeout (s1\<lparr>vm_map := (vm_map s1)(0 \<mapsto> e1\<lparr>visited := Some True\<rparr>)\<rparr>) = Inr s2 \<and>
      0 \<in> set (active s2) \<and>
      vm_map s2 0 = Some \<lparr>timeout = Some 120, lifetime = Some 120, visited = Some False\<rparr>)"
proof -
  have h1: "distinct (active (fresh_lease 120))" by (simp add: fresh_lease_eq)
  have h2: "0 \<in> set (active (fresh_lease 120))" by (simp add: fresh_lease_eq)
  show ?thesis
    using h1 h2 reaper_sweep_per_lease[OF h1 h2]
    by (simp add: fresh_lease_eq dict_get_def Let_def)
qed

text \<open>
  C3. When the free list is not empty, an allocation returns its last element, appends
  that id to the leased list, takes one occurrence of it out of the free list and leaves
  the lease entries alone. The free list has no duplicates in any reachable state, and
  then what is left of it is the list without its last element: the allocation pops the
  free list as a stack.
\<close>

theorem allocate_pops_last:
  "available s \<noteq> [] \<Longrightarrow>
   fst (u_get_available_vm s) = Inr (last (available s)) \<and>
   active (snd (u_get_available_vm s)) = active s @ [last (available s)] \<and>
   mset (available (snd (u_get_available_vm s))) = mset (available s) - {#last (available s)#} \<and>
   vm_map (snd (u_get_available_vm s)) = vm_map s \<and>
   (distinct (available s) \<longrightarrow>
      available (snd (u_get_available_vm s)) = butlast (available s))"
  by (simp add: u_get_available_vm_def Let_def allocate_vm_def remove1_last_distinct)

theorem allocate_pops_last_witness:
  "available (u_release_vm (fresh_lease 100) (IntId 0)) \<noteq> [] \<and>
   distinct (available (u_release_vm (fresh_lease 100) (IntId 0))) \<and>
   last (available (u_release_vm (fresh_lease 100) (IntId 0))) = 0 \<and>
   fst (u_get_available_vm (u_release_vm (fresh_lease 100) (IntId 0))) = Inr 0 \<and>
   active (snd (u_get_available_vm (u_release_vm (fresh_lease 100) (IntId 0)))) = [0] \<and>
   available (snd (u_get_available_vm (u_release_vm (fresh_lease 100) (IntId 0)))) = rev [1..50]"
proof -
  have s: "u_release_vm (fresh_lease 100) (IntId 0) =
      \<lparr>available = rev [1..50] @ [0], active = [],
       vm_map = [0 \<mapsto> \<lparr>timeout = Some 100, lifetime = Some 100, visited = None\<rparr>]\<rparr>"
    by (simp add: fresh_lease_eq u_release_vm_def release_vm_def)
  have h1: "available (u_release_vm (fresh_lease 100) (IntId 0)) \<noteq> []"
    by (simp add: s)
  have h2: "distinct (available (u_release_vm (fresh_lease 100) (IntId 0)))"
    by (simp add: s)
  show ?thesis
    using h1 h2 allocate_pops_last[OF h1] by (simp add: s)
qed

text \<open>
  C4. When the free list is empty, an allocation raises \<^verbatim>\<open>Exception("No available VMs")\<close>
  and leaves the three files as they were. The free list is empty, in particular, after
  51 allocations on a fresh pool.
\<close>

theorem allocate_empty_fails:
  "available s = [] \<Longrightarrow> u_get_available_vm s = (Inl NoAvailableVMs, s)"
  by (simp add: u_get_available_vm_def)

theorem allocate_empty_fails_witness:
  "available exhausted = [] \<and> active exhausted = [0..50] \<and>
   u_get_available_vm exhausted = (Inl NoAvailableVMs, exhausted)"
proof -
  have h: "available exhausted = []" by (simp add: exhausted_eq)
  show ?thesis using h allocate_empty_fails[OF h] by (simp add: exhausted_eq)
qed

text \<open>
  C5. The claim: releasing a leased id moves it from the leased list to the free list
  and deletes its lease entry. The release does move the id, but it writes only the two
  lists: after \<^verbatim>\<open>POST /reset\<close> with timeout 120 and \<^verbatim>\<open>POST /shutdown\<close> of the id, the id is free
  and its entry is still in the map. \<^verbatim>\<open>remove_vm_map\<close>, which would delete it, is never
  called, and the sweep does delete the entry of an id it reclaims.
\<close>

theorem release_keeps_lease_entry:
  "0 \<in> set (active (fresh_lease 120)) \<and>
   0 \<notin> set (active (snd (shutdown (fresh_lease 120) (IntId 0)))) \<and>
   0 \<in> set (available (snd (shutdown (fresh_lease 120) (IntId 0)))) \<and>
   vm_map (snd (shutdown (fresh_lease 120) (IntId 0))) 0 =
     Some \<lparr>timeout = Some 120, lifetime = Some 120, visited = None\<rparr> \<and>
   vm_map (remove_vm_map (snd (shutdown (fresh_lease 120) (IntId 0))) 0) 0 = None \<and>
   (\<exists>s1 s2. u_check_timeout (fresh_lease 120) = Inr s1 \<and> u_check_timeout s1 = Inr s2 \<and>
      0 \<in> set (available s2) \<and> vm_map s2 0 = None)"
proof -
  have "\<exists>s1 s2. u_check_timeout (fresh_lease 120) = Inr s1 \<and> u_check_timeout s1 = Inr s2 \<and>
      0 \<in> set (available s2) \<and> vm_map s2 0 = None"
  proof -
    have "u_check_timeout (fresh_lease 120) =
       Inr \<lparr>available = rev [1..50], active = [0],
         vm_map = [0 \<mapsto> \<lparr>timeout = Some 120, lifetime = Some 60, visited = None\<rparr>]\<rparr>"
      by (simp add: fresh_lease_eq u_check_timeout_def sweep_step_def sweep_entry_def dict_get_def)
    moreover have "u_check_timeout \<lparr>available = rev [1..50], active = [0],
         vm_map = [0 \<mapsto> \<lparr>timeout = Some 120, lifetime = Some 60, visited = None\<rparr>]\<rparr>
       = Inr \<lparr>available = rev [1..50] @ [0], active = [], vm_map = Map.empty\<rparr>"
      by (simp add: u_check_timeout_def sweep_step_def sweep_entry_def dict_get_def)
    ultimately show ?thesis by simp
  qed
  then show ?thesis
    by (simp add: fresh_lease_eq shutdown_def u_release_vm_def release_vm_def remove_vm_map_def)
qed

text \<open>
  C6. The claim: setting a lease fails with \<open>UnknownLease\<close> when the id is not leased, and
  writes the entry only for a leased id. \<^verbatim>\<open>_set_timeout\<close> looks at neither list and has no
  \<^verbatim>\<open>raise\<close>: on a fresh pool, where id 0 is free, it returns and the map holds an entry
  for id 0.
\<close>

theorem set_timeout_unleased_counterexample:
  "0 \<notin> set (active init_state) \<and> 0 \<in> set (available init_state) \<and>
   available (u_set_timeout init_state 0 100) = available init_state \<and>
   active (u_set_timeout init_state 0 100) = active init_state \<and>
   vm_map (u_set_timeout init_state 0 100) 0 =
     Some \<lparr>timeout = Some 100, lifetime = Some 100, visited = None\<rparr>"
  by (simp add: init_state_def u_set_timeout_def update_vm_map_def upto_0_50)

text \<open>
  C6, as the code has it. For every id, leased or not, \<^verbatim>\<open>_set_timeout\<close> returns normally
  and creates or overwrites the entry of the id with timeout and lifetime both set to
  the given value; it changes no other entry and neither list. The entry has no
  \<^verbatim>\<open>visited\<close> key, which the sweep reads as false: it takes 60 off the lifetime.
\<close>

theorem set_timeout_any_id:
  "u_set_timeout s vm_id tmo =
     s\<lparr>vm_map := (vm_map s)(vm_id \<mapsto>
          \<lparr>timeout = Some tmo, lifetime = Some tmo, visited = None\<rparr>)\<rparr> \<and>
   sweep_entry \<lparr>timeout = Some tmo, lifetime = Some tmo, visited = None\<rparr> =
     \<lparr>timeout = Some tmo, lifetime = Some (max 0 (tmo - 60)), visited = None\<rparr>"
  by (simp add: u_set_timeout_def update_vm_map_def sweep_entry_def dict_get_def)

text \<open>
  C7. The claim: any activity on a leased sandbox between two sweeps, such as a
  successful screenshot or step request, sets the \<^verbatim>\<open>visited\<close> flag of its lease, so that
  the next sweep resets the lifetime. No handler writes the map: after \<^verbatim>\<open>POST /reset\<close> with
  timeout 120 and one sweep, a successful \<^verbatim>\<open>GET /screenshot\<close> and a successful \<^verbatim>\<open>POST /step\<close>
  on the id leave the files as they were, with no flag in the entry, and the next sweep
  reclaims the id.
\<close>

theorem activity_sets_no_flag:
  "\<exists>s1 s2. u_check_timeout (fresh_lease 120) = Inr s1 \<and>
     vm_map s1 0 = Some \<lparr>timeout = Some 120, lifetime = Some 60, visited = None\<rparr> \<and>
     screenshot all_ok s1 0 = (ScreenshotOk 0, s1) \<and>
     step all_ok s1 0 = (StepOk False, s1) \<and>
     u_check_timeout s1 = Inr s2 \<and>
     0 \<notin> set (active s2) \<and> 0 \<in> set (available s2) \<and> vm_map s2 0 = None"
proof -
  let ?s1 = "\<lparr>available = rev [1..50], active = [0],
         vm_map = [0 \<mapsto> \<lparr>timeout = Some 120, lifetime = Some 60, visited = None\<rparr>]\<rparr>"
  have "u_check_timeout (fresh_lease 120) = Inr ?s1"
    by (simp add: fresh_lease_eq u_check_timeout_def sweep_step_def sweep_entry_def dict_get_def)
  moreover have "u_check_timeout ?s1
       = Inr \<lparr>available = rev [1..50] @ [0], active = [], vm_map = Map.empty\<rparr>"
    by (simp add: u_check_timeout_def sweep_step_def sweep_entry_def dict_get_def)
  moreover have "screenshot all_ok ?s1 0 = (ScreenshotOk 0, ?s1)"
    by (simp add: screenshot_def u_get_vm_env_def all_ok_def)
  moreover have "step all_ok ?s1 0 = (StepOk False, ?s1)"
    by (simp add: step_def u_get_vm_env_def all_ok_def)
  ultimately show ?thesis by simp
qed

text \<open>
  C8. In a state that satisfies the pool invariant, releasing twice in a row leaves the
  state that releasing once leaves, for an id, for \<^verbatim>\<open>"all"\<close> and for any other request
  value; and releasing an id that is free, or that lies outside 0..50, changes nothing.
  \<^verbatim>\<open>_release_vm\<close> has no \<^verbatim>\<open>raise\<close>: it returns on every input.
\<close>

theorem release_idempotent_noop:
  "pool_inv s \<Longrightarrow>
   u_release_vm (u_release_vm s vm_id) vm_id = u_release_vm s vm_id \<and>
   (i \<in> set (available s) \<or> i \<notin> {0..50} \<longrightarrow> u_release_vm s (IntId i) = s)"
  using u_release_idem[of s vm_id] u_release_noop[of s i]
  by (simp add: pool_inv_def)

theorem release_idempotent_noop_witness:
  "pool_inv (fresh_lease 100) \<and>
   u_release_vm (u_release_vm (fresh_lease 100) (IntId 0)) (IntId 0)
     = u_release_vm (fresh_lease 100) (IntId 0) \<and>
   u_release_vm (fresh_lease 100) (IntId 0) \<noteq> fresh_lease 100 \<and>
   u_release_vm (u_release_vm (fresh_lease 100) (StrId ''all'')) (StrId ''all'')
     = u_release_vm (fresh_lease 100) (StrId ''all'') \<and>
   1 \<in> set (available (fresh_lease 100)) \<and>
   u_release_vm (fresh_lease 100) (IntId 1) = fresh_lease 100 \<and>
   51 \<notin> {0..50::int} \<and> u_release_vm (fresh_lease 100) (IntId 51) = fresh_lease 100 \<and>
   - 1 \<notin> {0..50::int} \<and> u_release_vm (fresh_lease 100) (IntId (- 1)) = fresh_lease 100"
proof -
  have h: "pool_inv (fresh_lease 100)" by (rule pool_inv_fresh_lease)
  have a: "1 \<in> set (available (fresh_lease 100))" by (simp add: fresh_lease_eq)
  have n: "u_release_vm (fresh_lease 100) (IntId 0) \<noteq> fresh_lease 100"
    by (simp add: fresh_lease_eq u_release_vm_def release_vm_def)
  show ?thesis
    using h a n
      release_idempotent_noop[OF h, of "IntId 0" 1]
      release_idempotent_noop[OF h, of "StrId ''all''" 51]
      release_idempotent_noop[OF h, of "IntId 0" "- 1"]
    by simp
qed

text \<open>
  C9. Building the session handle for an id, as \<^verbatim>\<open>GET /screenshot\<close> and \<^verbatim>\<open>POST /step\<close> do,
  raises \<^verbatim>\<open>Exception("VM ID ... not available")\<close> exactly when the id is not in the leased
  list. In a state that satisfies the pool invariant, after \<^verbatim>\<open>POST /shutdown\<close> of an id a
  \<^verbatim>\<open>GET /screenshot\<close> of that id answers with status 400 and that exception, whatever the
  runtime would do, and changes nothing.
\<close>

theorem handle_needs_lease:
  "(u_get_vm_env rt s vm_id = Inl (VMNotAvailable vm_id) \<longleftrightarrow> vm_id \<notin> set (active s)) \<and>
   (pool_inv s \<longrightarrow>
      screenshot rt (snd (shutdown s (IntId vm_id))) vm_id =
        (JSONResponse400 (VMNotAvailable vm_id), snd (shutdown s (IntId vm_id))))"
  using shutdown_unleases[of s vm_id]
  by (simp add: get_vm_env_iff screenshot_unleased)

theorem handle_needs_lease_witness:
  "pool_inv (snd (reset all_ok init_state 100)) \<and>
   fst (reset all_ok init_state 100) = ResetOk 0 \<and>
   0 \<in> set (active (snd (reset all_ok init_state 100))) \<and>
   u_get_vm_env all_ok (snd (reset all_ok init_state 100)) 0 \<noteq> Inl (VMNotAvailable 0) \<and>
   fst (shutdown (snd (reset all_ok init_state 100)) (IntId 0)) = ShutdownOk (IntId 0) \<and>
   screenshot all_ok (snd (shutdown (snd (reset all_ok init_state 100)) (IntId 0))) 0 =
     (JSONResponse400 (VMNotAvailable 0),
      snd (shutdown (snd (reset all_ok init_state 100)) (IntId 0)))"
proof -
  have h: "pool_inv (snd (reset all_ok init_state 100))"
    using pool_inv_fresh_lease[of 100] by (simp add: fresh_lease_def)
  have a: "0 \<in> set (active (snd (reset all_ok init_state 100)))"
    using fresh_lease_eq[of 100] by (simp add: fresh_lease_def)
  show ?thesis
    using h a reset_fresh[of 100]
      handle_needs_lease[of all_ok "snd (reset all_ok init_state 100)" 0]
    by (simp add: shutdown_def)
qed

text \<open>
  C10. A leased id with no lease entry, such as the id of a \<^verbatim>\<open>POST /reset\<close> whose
  \<^verbatim>\<open>DesktopEnv.reset\<close> raised before \<^verbatim>\<open>_set_timeout\<close> was reached, is reclaimed by the next
  sweep: the sweep returns, reads the lifetime of the missing entry as 0, takes the id
  out of the leased list and puts it in the free list, and the id still has no entry.
\<close>

theorem unrecorded_lease_reclaimed:
  assumes "vm_id \<in> set (active s)" and "vm_map s vm_id = None"
  shows "\<exists>s'. u_check_timeout s = Inr s' \<and>
     lifetime (sweep_entry (dict_get (vm_map s vm_id) empty_entry)) = Some 0 \<and>
     vm_id \<notin> set (active s') \<and> vm_id \<in> set (available s') \<and> vm_map s' vm_id = None"
proof -
  obtain s' where l: "sweep_loop (active s) s = Inr s'" and m: "vm_map s' vm_id = None"
    and ca: "count (mset (active s')) vm_id
               = count (mset (active s)) vm_id - count (mset (active s)) vm_id"
    and cv: "count (mset (available s')) vm_id
               = count (mset (available s)) vm_id + count (mset (active s)) vm_id"
    using sweep_loop_unrecorded[of "active s" s vm_id] assms(2) by auto
  have "count (mset (active s')) vm_id = 0" using ca by simp
  then have "vm_id \<notin> set (active s')" by (simp add: count_eq_zero_iff)
  moreover have "count (mset (active s)) vm_id > 0" using assms(1) by simp
  then have "count (mset (available s')) vm_id > 0" using cv by simp
  then have "vm_id \<in> set (available s')" by (simp add: count_greater_zero_iff)
  moreover have "lifetime (sweep_entry (dict_get (vm_map s vm_id) empty_entry)) = Some 0"
    using assms(2) by (simp add: dict_get_def sweep_entry_empty)
  ultimately show ?thesis using l m by (auto simp: u_check_timeout_def)
qed

theorem unrecorded_lease_reclaimed_witness:
  "fst (reset reset_fails init_state 100) = JSONResponse400 RuntimeFailure \<and>
   0 \<in> set (active leaked_lease) \<and> vm_map leaked_lease 0 = None \<and>
   (\<exists>s'. u_check_timeout leaked_lease = Inr s' \<and>
      lifetime (sweep_entry (dict_get (vm_map leaked_lease 0) empty_entry)) = Some 0 \<and>
      0 \<notin> set (active s') \<and> 0 \<in> set (available s') \<and> vm_map s' 0 = None)"
proof -
  have h1: "0 \<in> set (active leaked_lease)" by (simp add: leaked_lease_eq)
  have h2: "vm_map leaked_lease 0 = None" by (simp add: leaked_lease_eq)
  show ?thesis
    using h1 h2 reset_leaks[of 100] unrecorded_lease_reclaimed[OF h1 h2] by simp
qed

end
